theory Spec2Isabelle
  imports Main "HOL-Library.Word" "HOL-Library.Signed_Division" "HOL-Library.AList"
    "HOL-Library.Multiset"
begin

section \<open>The event-log client of pkg/event/manager.go\<close>

text \<open>
  The manager keeps a registry of loggers (one per event id) and a registry of handles
  (one per event-log server). Every method of the manager runs under the manager's one
  lock, so each method is one atomic state transformer on the record \<open>manager\<close> below.
  A panic of the Go runtime (nil dereference, index out of range) is the left summand of
  the result.
\<close>

subsection \<open>Data\<close>

type_synonym chan = nat
type_synonym bytes = string
type_synonym error = string
type_synonym time = int
type_synonym Logger = nat

datatype panic = NilDereference | IndexOutOfRange | DivideByZero | AssignNilMap

text \<open>config.Endpoint and EventConfig, field by field.\<close>

record Endpoint =
  Name :: string
  URL :: string
  Weight :: int
  Mode :: int

record EventConfig =
  EventLogServers :: "string list"
  DiscoverAddress :: "string list"

text \<open>
  A channel made by \<open>make\<close> is identified by a number; two channel values are equal in Go
  exactly when they are the same channel, that is the same number here. The fields
  \<open>ctx\<close> and \<open>manager\<close> of a handle point to the one manager and its root context.
\<close>

record handle =
  server :: string
  stop :: chan
  cacheChan :: chan

text \<open>A \<open>Logger\<close> is a pointer to a \<open>logger\<close> struct; \<open>sendChan\<close> is \<open>None\<close> for a nil channel.\<close>

record logger =
  event :: string
  sendChan :: "chan option"
  createTime :: time

text \<open>
  Modelled from the spec: the discovery client of pkg/discover, which is not part of the
  sources at hand. The manager registers itself under a project key and the subscription
  can be stopped.
\<close>

record Discover =
  projects :: "string list"
  stopped :: bool

text \<open>
  The manager. Go maps that the code ranges over are association lists read with
  \<open>map_of\<close> and changed with \<open>AList.update\<close> and \<open>AList.delete\<close>; the map
  \<open>abnormalServer\<close> is only looked up and is a partial function. \<open>ctx_done\<close> says
  whether \<open>cancel\<close> has been called on the root context. \<open>qos\<close> is an int32.
  The last five fields are the part of the Go heap and scheduler the methods touch:
  the logger structs by address, the next free logger address and channel number, the
  handles whose \<open>HandleLog\<close> goroutine has been started, and whether the GC goroutine runs.
\<close>

record manager =
  ctx_done :: bool
  config :: EventConfig
  qos :: "32 word"
  loggers :: "(string \<times> Logger) list"
  handles :: "(string \<times> handle) list"
  eventServer :: "string list"
  abnormalServer :: "string \<rightharpoonup> string"
  dis :: "Discover option"
  heap :: "Logger \<Rightarrow> logger"
  next_logger :: nat
  next_chan :: nat
  spawned :: "handle list"
  gc_running :: bool

text \<open>
  The order in which a \<open>range\<close> loop visits the keys of a map is chosen by the Go runtime.
  Every method that ranges over a map takes that choice as its first argument \<open>ord\<close>, a
  function from the keys as stored to the keys as visited; \<open>range_order ord\<close> says that it
  visits every key once.
\<close>

definition range_order :: "(string list \<Rightarrow> string list) \<Rightarrow> bool" where
  "range_order ord = (\<forall>ks. mset (ord ks) = mset ks)"

subsection \<open>Handles\<close>

text \<open>
  The struct literal \<open>handle{cacheChan: make(chan []byte, 100), stop: make(chan struct{}),
  server: s, manager: m, ctx: m.ctx}\<close> followed by \<open>m.handles[s] = h\<close> and \<open>go h.HandleLog()\<close>.
\<close>

definition chan_capacity :: nat where
  "chan_capacity = 100"

definition new_handle :: "string \<Rightarrow> manager \<Rightarrow> handle" where
  "new_handle s m = \<lparr>server = s, stop = Suc (next_chan m), cacheChan = next_chan m\<rparr>"

definition start_handle :: "string \<Rightarrow> manager \<Rightarrow> manager" where
  "start_handle s m =
     m\<lparr>handles := AList.update s (new_handle s m) (handles m),
       next_chan := next_chan m + 2,
       spawned := spawned m @ [new_handle s m]\<rparr>"

subsection \<open>Start, NewManager, Close\<close>

fun Start_loop :: "string list \<Rightarrow> manager \<Rightarrow> manager" where
  "Start_loop [] m = m"
| "Start_loop (s # ss) m = Start_loop ss (start_handle s m)"

definition Start :: "manager \<Rightarrow> error option \<times> manager" where
  "Start m =
     (let m1 = Start_loop (eventServer m) m;
          m2 = (case dis m1 of
                  None \<Rightarrow> m1
                | Some d \<Rightarrow> m1\<lparr>dis := Some (d\<lparr>projects := projects d @ [''event_log_event_grpc'']\<rparr>)\<rparr>)
      in (None, m2\<lparr>gc_running := True\<rparr>))"

text \<open>
  \<open>NewManager\<close>: the result of \<open>discover.GetDiscover\<close> (a client, nil when there is none,
  and an error) is an argument. The result is the returned error and the new value of
  \<open>defaultManager\<close> (\<open>None\<close> when it is not assigned).
\<close>

definition NewManager ::
  "EventConfig \<Rightarrow> Discover option \<times> error option \<Rightarrow> error option \<times> manager option" where
  "NewManager conf gd =
     (case gd of (d, err) \<Rightarrow>
        if err \<noteq> None \<and> length (EventLogServers conf) < 1 then (err, None)
        else
          (let m = \<lparr>ctx_done = False, config = conf, qos = 0, loggers = [], handles = [],
                    eventServer = EventLogServers conf, abnormalServer = Map.empty, dis = d,
                    heap = (\<lambda>_. \<lparr>event = [], sendChan = None, createTime = 0\<rparr>),
                    next_logger = 0, next_chan = 0, spawned = [], gc_running = False\<rparr>
           in case Start m of (e, m') \<Rightarrow> (e, Some m')))"

text \<open>
  \<open>Close\<close>: \<open>m.cancel(); m.dis.Stop(); return nil\<close>. Calling \<open>Stop\<close> on a nil interface
  is a nil dereference. The result of \<open>Stop\<close> is dropped by the code.
\<close>

definition Close :: "manager \<Rightarrow> panic + (error option \<times> manager)" where
  "Close m =
     (let m1 = m\<lparr>ctx_done := True\<rparr>
      in case dis m1 of
           None \<Rightarrow> Inl NilDereference
         | Some d \<Rightarrow> Inr (None, m1\<lparr>dis := Some (d\<lparr>stopped := True\<rparr>)\<rparr>))"

subsection \<open>Load balancing\<close>

text \<open>
  \<open>getLBChan\<close>. The loop runs \<open>len(m.eventServer)\<close> times at most; each round computes
  \<open>m.qos % int32(len(m.eventServer))\<close> (Go's remainder truncates towards zero, \<open>smod\<close>;
  a zero divisor panics), adds one to \<open>m.qos\<close> with wrap-around, and indexes the server
  list (a negative or too large index panics). The loop result \<open>None\<close> means that the loop
  ended without returning.
\<close>

fun getLBChan_loop :: "nat \<Rightarrow> manager \<Rightarrow> panic + (chan option \<times> manager)" where
  "getLBChan_loop 0 m = Inr (None, m)"
| "getLBChan_loop (Suc i) m =
     (let d = (word_of_nat (length (eventServer m)) :: 32 word) in
      if d = 0 then Inl DivideByZero
      else
        let index = sint (qos m) smod sint d;
            m1 = m\<lparr>qos := qos m + 1\<rparr>
        in if index < 0 \<or> length (eventServer m) \<le> nat index then Inl IndexOutOfRange
           else
             let s = eventServer m ! nat index
             in if abnormalServer m1 s \<noteq> None then getLBChan_loop i m1
                else (case map_of (handles m1) s of
                        Some h \<Rightarrow> Inr (Some (cacheChan h), m1)
                      | None \<Rightarrow> Inr (Some (cacheChan (new_handle s m1)), start_handle s m1)))"

definition getLBChan ::
  "(string list \<Rightarrow> string list) \<Rightarrow> manager \<Rightarrow> panic + (chan option \<times> manager)" where
  "getLBChan ord m =
     (case getLBChan_loop (length (eventServer m)) m of
        Inl p \<Rightarrow> Inl p
      | Inr (Some c, m') \<Rightarrow> Inr (Some c, m')
      | Inr (None, m') \<Rightarrow>
          (case ord (map fst (handles m')) of
             [] \<Rightarrow> Inr (None, m')
           | k # _ \<Rightarrow> Inr (map_option cacheChan (map_of (handles m') k), m')))"

text \<open>A number of selections one after the other, with the queues they return.\<close>

fun selections ::
  "(string list \<Rightarrow> string list) \<Rightarrow> nat \<Rightarrow> manager \<Rightarrow> panic + (chan option list \<times> manager)" where
  "selections ord 0 m = Inr ([], m)"
| "selections ord (Suc n) m =
     (case getLBChan ord m of
        Inl p \<Rightarrow> Inl p
      | Inr (c, m1) \<Rightarrow>
          (case selections ord n m1 of
             Inl p \<Rightarrow> Inl p
           | Inr (cs, m2) \<Rightarrow> Inr (c # cs, m2)))"

subsection \<open>Loggers of the registry\<close>

definition GetLogger ::
  "(string list \<Rightarrow> string list) \<Rightarrow> time \<Rightarrow> string \<Rightarrow> manager \<Rightarrow> panic + (Logger \<times> manager)" where
  "GetLogger ord now eventID0 m =
     (let eventID = (if eventID0 = '' '' \<or> length eventID0 = 0 then ''system'' else eventID0)
      in case map_of (loggers m) eventID of
           Some l \<Rightarrow> Inr (l, m)
         | None \<Rightarrow>
             (case getLBChan ord m of
                Inl p \<Rightarrow> Inl p
              | Inr (c, m1) \<Rightarrow>
                  (let l = next_logger m1
                   in Inr (l, m1\<lparr>heap := (heap m1)(l := \<lparr>event = eventID, sendChan = c, createTime = now\<rparr>),
                                 next_logger := Suc l,
                                 loggers := AList.update eventID l (loggers m1)\<rparr>))))"

text \<open>
  \<open>ReleaseLogger\<close>: the argument is an interface value, \<open>None\<close> when nil. The \<open>l\<close> of the
  \<open>if\<close> statement is the logger found in the registry, and the key deleted is its event id.
\<close>

definition ReleaseLogger :: "Logger option \<Rightarrow> manager \<Rightarrow> panic + manager" where
  "ReleaseLogger lo m =
     (case lo of
        None \<Rightarrow> Inl NilDereference
      | Some l \<Rightarrow>
          (case map_of (loggers m) (event (heap m l)) of
             Some l' \<Rightarrow> Inr (m\<lparr>loggers := AList.delete (event (heap m l')) (loggers m)\<rparr>)
           | None \<Rightarrow> Inr m))"

text \<open>One sweep of the GC loop; \<open>time.Minute\<close> in nanoseconds.\<close>

definition Minute :: time where
  "Minute = 60000000000"

definition GC_sweep :: "(string list \<Rightarrow> string list) \<Rightarrow> time \<Rightarrow> manager \<Rightarrow> manager" where
  "GC_sweep ord now m =
     (let needRelease =
            filter (\<lambda>k. case map_of (loggers m) k of
                          Some l \<Rightarrow> createTime (heap m l) + Minute < now
                        | None \<Rightarrow> False)
                   (ord (map fst (loggers m)))
      in if length needRelease > 0
         then m\<lparr>loggers := fold AList.delete needRelease (loggers m)\<rparr>
         else m)"

subsection \<open>Membership updates\<close>

text \<open>
  \<open>UpdateEndpoints\<close>. An endpoint is a pointer, \<open>None\<close> when nil; reading \<open>end.URL\<close> of a
  nil pointer panics. The first loop threads the manager and the map \<open>new\<close>.
\<close>

fun add_endpoints ::
  "Endpoint option list \<Rightarrow> manager \<times> (string \<times> string) list
     \<Rightarrow> panic + (manager \<times> (string \<times> string) list)" where
  "add_endpoints [] mn = Inr mn"
| "add_endpoints (None # es) mn = Inl NilDereference"
| "add_endpoints (Some e # es) (m, new) =
     add_endpoints es
       (if map_of (handles m) (URL e) = None then start_handle (URL e) m else m,
        AList.update (URL e) (URL e) new)"

definition delete_old ::
  "(string list \<Rightarrow> string list) \<Rightarrow> (string \<times> string) list \<Rightarrow> (string \<times> handle) list
     \<Rightarrow> (string \<times> handle) list" where
  "delete_old ord new hs =
     fold (\<lambda>k hs'. if map_of new k = None then AList.delete k hs' else hs') (ord (map fst hs)) hs"

definition UpdateEndpoints ::
  "(string list \<Rightarrow> string list) \<Rightarrow> Endpoint option list \<Rightarrow> manager \<Rightarrow> panic + manager" where
  "UpdateEndpoints ord endpoints m =
     (if length endpoints < 1 then Inr m
      else
        (case add_endpoints endpoints (m\<lparr>abnormalServer := Map.empty\<rparr>, []) of
           Inl p \<Rightarrow> Inl p
         | Inr (m1, new) \<Rightarrow>
             Inr (m1\<lparr>handles := delete_old ord new (handles m1),
                     eventServer := ord (map fst new)\<rparr>)))"

subsection \<open>Failover\<close>

text \<open>
  \<open>DiscardedLoggerChan\<close>: the first loop marks the servers whose handle owns the channel,
  the second gives every logger that sends to the channel the result of a new selection.
\<close>

definition mark_abnormal :: "(string list \<Rightarrow> string list) \<Rightarrow> chan option \<Rightarrow> manager \<Rightarrow> manager" where
  "mark_abnormal ord c m =
     fold (\<lambda>k m'. case map_of (handles m) k of
                    Some v \<Rightarrow> if Some (cacheChan v) = c
                              then m'\<lparr>abnormalServer := (abnormalServer m')(k \<mapsto> k)\<rparr> else m'
                  | None \<Rightarrow> m')
          (ord (map fst (handles m))) m"

fun migrate_loggers ::
  "(string list \<Rightarrow> string list) \<Rightarrow> chan option \<Rightarrow> string list \<Rightarrow> manager \<Rightarrow> panic + manager" where
  "migrate_loggers ord c [] m = Inr m"
| "migrate_loggers ord c (k # ks) m =
     (case map_of (loggers m) k of
        None \<Rightarrow> migrate_loggers ord c ks m
      | Some v \<Rightarrow>
          if sendChan (heap m v) = c
          then (case getLBChan ord m of
                  Inl p \<Rightarrow> Inl p
                | Inr (c', m1) \<Rightarrow>
                    migrate_loggers ord c ks
                      (m1\<lparr>heap := (heap m1)(v := (heap m1 v)\<lparr>sendChan := c'\<rparr>)\<rparr>))
          else migrate_loggers ord c ks m)"

definition DiscardedLoggerChan ::
  "(string list \<Rightarrow> string list) \<Rightarrow> chan option \<Rightarrow> manager \<Rightarrow> panic + manager" where
  "DiscardedLoggerChan ord c m =
     (let m1 = mark_abnormal ord c m
      in migrate_loggers ord c (ord (map fst (loggers m1))) m1)"

definition RemoveHandle :: "string \<Rightarrow> manager \<Rightarrow> manager" where
  "RemoveHandle s m =
     (if map_of (handles m) s \<noteq> None then m\<lparr>handles := AList.delete s (handles m)\<rparr> else m)"

subsection \<open>The drain task of a handle\<close>

text \<open>
  \<open>HandleLog\<close> talks to the transport and waits in a \<open>select\<close>. What the transport answers
  and which case of the \<open>select\<close> fires is the environment's choice, given to the model as
  a script: one \<open>attempt\<close> for every run of the function literal passed to \<open>util.Exec\<close>.
  \<open>newClient\<close> and \<open>openLog\<close> are the errors of \<open>eventclient.NewEventClient\<close> and
  \<open>client.Log\<close> (\<open>None\<close> for nil); \<open>events\<close> lists what the \<open>select\<close> sees, a record
  taken from \<open>cacheChan\<close> together with the error of its \<open>Send\<close>; \<open>shutdown_in_wait\<close>
  says whether the root context is cancelled while \<open>Exec\<close> waits after the attempt.
  The task's calls on the stream are collected as a list of actions.
\<close>

datatype select_event = CtxDone | StopSignal | Record bytes "error option"

record attempt =
  newClient :: "error option"
  openLog :: "error option"
  events :: "select_event list"
  shutdown_in_wait :: bool

datatype action = Connect | OpenStream | Send bytes | CloseSend | Failover

text \<open>A task has returned a Go error value, or still runs where the script ends.\<close>

datatype outcome = Returned "error option" | Running

fun drain ::
  "(string list \<Rightarrow> string list) \<Rightarrow> handle \<Rightarrow> select_event list \<Rightarrow> manager \<times> action list
     \<Rightarrow> panic + (outcome \<times> manager \<times> action list)" where
  "drain ord h [] (m, acts) = Inr (Running, m, acts)"
| "drain ord h (CtxDone # es) (m, acts) = Inr (Returned None, m, acts @ [CloseSend])"
| "drain ord h (StopSignal # es) (m, acts) = Inr (Returned None, m, acts @ [CloseSend])"
| "drain ord h (Record me None # es) (m, acts) = drain ord h es (m, acts @ [Send me])"
| "drain ord h (Record me (Some err) # es) (m, acts) =
     (case DiscardedLoggerChan ord (Some (cacheChan h)) m of
        Inl p \<Rightarrow> Inl p
      | Inr m' \<Rightarrow> Inr (Returned None, m', acts @ [Send me, CloseSend, Failover]))"

definition attempt_body ::
  "(string list \<Rightarrow> string list) \<Rightarrow> handle \<Rightarrow> attempt \<Rightarrow> manager \<times> action list
     \<Rightarrow> panic + (outcome \<times> manager \<times> action list)" where
  "attempt_body ord h a ma =
     (case ma of (m, acts) \<Rightarrow>
        (case newClient a of
           Some err \<Rightarrow> Inr (Returned (Some err), m, acts @ [Connect])
         | None \<Rightarrow>
             (case openLog a of
                Some err \<Rightarrow>
                  (case DiscardedLoggerChan ord (Some (cacheChan h)) m of
                     Inl p \<Rightarrow> Inl p
                   | Inr m' \<Rightarrow> Inr (Returned (Some err), m', acts @ [Connect, OpenStream, Failover]))
              | None \<Rightarrow> drain ord h (events a) (m, acts @ [Connect, OpenStream]))))"

text \<open>
  Modelled from the spec: \<open>util.Exec\<close> of pkg/util, which is not part of the sources at
  hand. The spec has it run the function again, after a fixed wait, for as long as the
  function returns an error and the root context is not cancelled; a run that returns nil
  ends it. What it returns when the context is cancelled during the wait is not said; the
  model returns nil, and \<open>HandleLog\<close>'s caller drops the value.
\<close>

fun Exec ::
  "(attempt \<Rightarrow> 's \<Rightarrow> panic + (outcome \<times> 's)) \<Rightarrow> attempt list \<Rightarrow> 's \<Rightarrow> panic + (outcome \<times> 's)" where
  "Exec f [] s = Inr (Running, s)"
| "Exec f (a # as) s =
     (case f a s of
        Inl p \<Rightarrow> Inl p
      | Inr (Running, s') \<Rightarrow> Inr (Running, s')
      | Inr (Returned None, s') \<Rightarrow> Inr (Returned None, s')
      | Inr (Returned (Some err), s') \<Rightarrow>
          if shutdown_in_wait a then Inr (Returned None, s') else Exec f as s')"

text \<open>\<open>HandleLog\<close>: the deferred \<open>RemoveHandle\<close> runs when \<open>Exec\<close> has returned.\<close>

definition HandleLog ::
  "(string list \<Rightarrow> string list) \<Rightarrow> handle \<Rightarrow> attempt list \<Rightarrow> manager
     \<Rightarrow> panic + (outcome \<times> manager \<times> action list)" where
  "HandleLog ord h script m =
     (case Exec (attempt_body ord h) script (m, []) of
        Inl p \<Rightarrow> Inl p
      | Inr (Running, m', acts) \<Rightarrow> Inr (Running, m', acts)
      | Inr (Returned r, m', acts) \<Rightarrow> Inr (Returned r, RemoveHandle (server h) m', acts))"

text \<open>The number of times the task has opened a connection.\<close>

definition attempts :: "action list \<Rightarrow> nat" where
  "attempts acts = length (filter (\<lambda>a. a = Connect) acts)"

subsection \<open>Emitting a record\<close>

text \<open>
  The attribute maps that callers pass are Go maps, shared by reference: \<open>attr_maps\<close> holds
  them by address and an argument of type \<open>map[string]string\<close> is an address, \<open>None\<close> for
  the nil map. \<open>queues\<close> holds the buffered records of every channel. The string
  \<open>ts\<close> stands for \<open>time.Now().Format(time.RFC3339)\<close> and \<open>mar\<close> for \<open>ffjson.Marshal\<close>.
\<close>

record emit_state =
  attr_maps :: "nat \<Rightarrow> (string \<rightharpoonup> string)"
  next_map :: nat
  queues :: "chan \<Rightarrow> bytes list"

text \<open>
  Modelled from the spec: \<open>util.SendNoBlocking\<close> of pkg/util, which is not part of the
  sources at hand: a push that does not block, and drops the record when the queue is full.
\<close>

definition SendNoBlocking :: "bytes \<Rightarrow> chan \<Rightarrow> (chan \<Rightarrow> bytes list) \<Rightarrow> (chan \<Rightarrow> bytes list)" where
  "SendNoBlocking log c qs = (if length (qs c) < chan_capacity then qs(c := qs c @ [log]) else qs)"

definition set_attr :: "nat \<Rightarrow> string \<Rightarrow> string \<Rightarrow> emit_state \<Rightarrow> emit_state" where
  "set_attr r k v s = s\<lparr>attr_maps := (attr_maps s)(r := (attr_maps s r)(k \<mapsto> v))\<rparr>"

text \<open>
  \<open>send\<close>: its map argument may be nil as far as the types go, and the first assignment
  to an entry of a nil map panics. An error of \<open>Marshal\<close> and a nil \<open>sendChan\<close> end the
  call without a push.
\<close>

definition send ::
  "string \<Rightarrow> ((string \<rightharpoonup> string) \<Rightarrow> error + bytes) \<Rightarrow> logger \<Rightarrow> string \<Rightarrow> nat option
     \<Rightarrow> emit_state \<Rightarrow> panic + emit_state" where
  "send ts mar l message info s =
     (case info of
        None \<Rightarrow> Inl AssignNilMap
      | Some r \<Rightarrow>
          (let s1 = set_attr r ''event_id'' (event l) s;
               s2 = set_attr r ''message'' message s1;
               s3 = set_attr r ''time'' ts s2
           in case mar (attr_maps s3 r) of
                Inl err \<Rightarrow> Inr s3
              | Inr log \<Rightarrow>
                  (case sendChan l of
                     None \<Rightarrow> Inr s3
                   | Some c \<Rightarrow> Inr (s3\<lparr>queues := SendNoBlocking log c (queues s3)\<rparr>))))"

text \<open>\<open>if info == nil { info = make(map[string]string) }\<close>: the map used and the new state.\<close>

definition or_make :: "nat option \<Rightarrow> emit_state \<Rightarrow> nat \<times> emit_state" where
  "or_make info s =
     (case info of
        None \<Rightarrow> (next_map s,
                 s\<lparr>attr_maps := (attr_maps s)(next_map s := Map.empty), next_map := Suc (next_map s)\<rparr>)
      | Some r \<Rightarrow> (r, s))"

definition Info ::
  "string \<Rightarrow> ((string \<rightharpoonup> string) \<Rightarrow> error + bytes) \<Rightarrow> logger \<Rightarrow> string \<Rightarrow> nat option
     \<Rightarrow> emit_state \<Rightarrow> panic + emit_state" where
  "Info ts mar l message info s =
     (case or_make info s of
        (r, s1) \<Rightarrow> send ts mar l message (Some r) (set_attr r ''level'' ''info'' s1))"

definition Error ::
  "string \<Rightarrow> ((string \<rightharpoonup> string) \<Rightarrow> error + bytes) \<Rightarrow> logger \<Rightarrow> string \<Rightarrow> nat option
     \<Rightarrow> emit_state \<Rightarrow> panic + emit_state" where
  "Error ts mar l message info s =
     (case or_make info s of
        (r, s1) \<Rightarrow> send ts mar l message (Some r) (set_attr r ''level'' ''error'' s1))"

definition Debug ::
  "string \<Rightarrow> ((string \<rightharpoonup> string) \<Rightarrow> error + bytes) \<Rightarrow> logger \<Rightarrow> string \<Rightarrow> nat option
     \<Rightarrow> emit_state \<Rightarrow> panic + emit_state" where
  "Debug ts mar l message info s =
     (case or_make info s of
        (r, s1) \<Rightarrow> send ts mar l message (Some r) (set_attr r ''level'' ''debug'' s1))"

subsection \<open>Properties of a manager state\<close>

text \<open>The channel \<open>c\<close> is the queue of a handle of the registry.\<close>

definition registered_queue :: "manager \<Rightarrow> chan \<Rightarrow> bool" where
  "registered_queue m c =
     (\<exists>k \<in> set (map fst (handles m)). map_option cacheChan (map_of (handles m) k) = Some c)"

text \<open>Every logger of the registry sends to nil or to the queue of a handle of the registry.\<close>

definition logger_queue_inv :: "manager \<Rightarrow> bool" where
  "logger_queue_inv m =
     (\<forall>k \<in> set (map fst (loggers m)).
        case map_of (loggers m) k of
          None \<Rightarrow> True
        | Some l \<Rightarrow> (case sendChan (heap m l) of None \<Rightarrow> True | Some c \<Rightarrow> registered_queue m c))"

text \<open>Every logger of the registry is stored under its own event id, as \<open>GetLogger\<close> stores it.\<close>

definition registry_keyed :: "manager \<Rightarrow> bool" where
  "registry_keyed m =
     (\<forall>k \<in> set (map fst (loggers m)).
        case map_of (loggers m) k of None \<Rightarrow> True | Some l \<Rightarrow> event (heap m l) = k)"

text \<open>
  The queues of the handles of the registry are channels made earlier, and two servers do
  not share a queue.
\<close>

definition queues_fresh :: "manager \<Rightarrow> bool" where
  "queues_fresh m =
     (\<forall>k \<in> set (map fst (handles m)).
        case map_of (handles m) k of
          None \<Rightarrow> True
        | Some h \<Rightarrow>
            cacheChan h < next_chan m \<and>
            (\<forall>k' \<in> set (map fst (handles m)).
               map_option cacheChan (map_of (handles m) k') = Some (cacheChan h) \<longrightarrow> k' = k))"

text \<open>
  The cursor \<open>qos\<close> is not negative and \<open>j\<close> more rounds do not make the int32 wrap around;
  the length of the server list fits an int32.
\<close>

definition no_wrap :: "manager \<Rightarrow> nat \<Rightarrow> bool" where
  "no_wrap m j =
     (0 \<le> sint (qos m) \<and> sint (qos m) + int j < 2 ^ 31 \<and> length (eventServer m) < 2 ^ 31)"

text \<open>The server that round \<open>j\<close> (from 0) of a selection started in \<open>m\<close> looks at.\<close>

definition examined :: "manager \<Rightarrow> nat \<Rightarrow> string" where
  "examined m j =
     eventServer m ! nat ((sint (qos m) + int j) mod int (length (eventServer m)))"


subsection \<open>A sample state\<close>

text \<open>
  The state of a manager made for the servers \<open>a\<close> and \<open>b\<close> with a discovery client,
  after \<open>GetLogger\<close> for the event \<open>e\<close> at time 0.
\<close>

definition sample :: manager where
  "sample =
     \<lparr>ctx_done = False,
      config = \<lparr>EventLogServers = [''a'', ''b''], DiscoverAddress = []\<rparr>,
      qos = 1,
      loggers = [(''e'', 0)],
      handles = [(''a'', \<lparr>server = ''a'', stop = 1, cacheChan = 0\<rparr>),
                 (''b'', \<lparr>server = ''b'', stop = 3, cacheChan = 2\<rparr>)],
      eventServer = [''a'', ''b''],
      abnormalServer = Map.empty,
      dis = Some \<lparr>projects = [''event_log_event_grpc''], stopped = False\<rparr>,
      heap = (\<lambda>_. \<lparr>event = [], sendChan = None, createTime = 0\<rparr>)
               (0 := \<lparr>event = ''e'', sendChan = Some 0, createTime = 0\<rparr>),
      next_logger = 1,
      next_chan = 4,
      spawned = [\<lparr>server = ''a'', stop = 1, cacheChan = 0\<rparr>,
                 \<lparr>server = ''b'', stop = 3, cacheChan = 2\<rparr>],
      gc_running = True\<rparr>"

section \<open>Emitting records\<close>

text \<open>What \<open>send\<close> does to the map and to the queues.\<close>

lemma send_returns: "\<exists>s'. send ts mar l msg (Some r) s = Inr s'"
  by (simp add: send_def Let_def split: sum.split option.split)

lemma send_attr:
  "send ts mar l msg (Some r) s = Inr s' \<Longrightarrow>
   attr_maps s' = (attr_maps s)(r := (attr_maps s r)(''event_id'' \<mapsto> event l, ''message'' \<mapsto> msg, ''time'' \<mapsto> ts))"
  by (auto simp: send_def Let_def set_attr_def split: sum.splits option.splits)


lemma send_pushed:
  "send ts mar l msg (Some r) s = Inr s' \<Longrightarrow> mar (attr_maps s' r) = Inr log \<Longrightarrow>
   sendChan l = Some c \<Longrightarrow> length (queues s c) < chan_capacity \<Longrightarrow>
   queues s' = (queues s)(c := queues s c @ [log])"
  by (auto simp: send_def Let_def set_attr_def SendNoBlocking_def
      split: sum.splits option.splits)



lemma emit_map:
  "\<exists>s'. send ts mar l message (Some r) (set_attr r ''level'' lv s) = Inr s' \<and>
        attr_maps s' r = (attr_maps s r)(''level'' \<mapsto> lv, ''event_id'' \<mapsto> event l,
                                         ''message'' \<mapsto> message, ''time'' \<mapsto> ts)"
proof -
  obtain s' where s': "send ts mar l message (Some r) (set_attr r ''level'' lv s) = Inr s'"
    using send_returns by blast
  show ?thesis using s' send_attr [OF s'] by (simp add: set_attr_def)
qed



text \<open>
  C9. For a map that holds just \<open>k = v\<close>, \<open>Info\<close> with the message \<open>msg\<close> leaves in the
  map, which is the record handed to the serializer, exactly the five keys \<open>k\<close>,
  \<open>level\<close>, \<open>event_id\<close>, \<open>message\<close> and \<open>time\<close> with the values \<open>v\<close>, \<open>info\<close>, the
  logger's event id, \<open>msg\<close> and the timestamp; what the serializer makes of this record
  is what is pushed on the logger's queue when there is room.
\<close>

theorem Info_record_fields:
  assumes "attr_maps s r = [''k'' \<mapsto> ''v'']"
  shows "\<exists>s'. Info ts mar l ''msg'' (Some r) s = Inr s' \<and>
           attr_maps s' r =
             [''k'' \<mapsto> ''v'', ''level'' \<mapsto> ''info'', ''event_id'' \<mapsto> event l,
              ''message'' \<mapsto> ''msg'', ''time'' \<mapsto> ts] \<and>
           dom (attr_maps s' r) = {''k'', ''level'', ''event_id'', ''message'', ''time''} \<and>
           (\<forall>log c. mar (attr_maps s' r) = Inr log \<and> sendChan l = Some c \<and>
                    length (queues s c) < chan_capacity \<longrightarrow>
                    queues s' = (queues s)(c := queues s c @ [log]))"
proof -
  from emit_map [of ts mar l "''msg''" r "''info''" s]
  obtain s' where s': "send ts mar l ''msg'' (Some r) (set_attr r ''level'' ''info'' s) = Inr s'"
    and m: "attr_maps s' r = (attr_maps s r)(''level'' \<mapsto> ''info'', ''event_id'' \<mapsto> event l,
                                         ''message'' \<mapsto> ''msg'', ''time'' \<mapsto> ts)"
    by (elim exE conjE)
  have i: "Info ts mar l ''msg'' (Some r) s = Inr s'"
    using s' by (simp add: Info_def or_make_def)
  have q: "queues (set_attr r ''level'' ''info'' s) = queues s"
    by (simp add: set_attr_def)
  have p: "\<forall>log c. mar (attr_maps s' r) = Inr log \<and> sendChan l = Some c \<and>
                    length (queues s c) < chan_capacity \<longrightarrow>
                    queues s' = (queues s)(c := queues s c @ [log])"
    using send_pushed [OF s'] unfolding q by blast
  have m': "attr_maps s' r =
             [''k'' \<mapsto> ''v'', ''level'' \<mapsto> ''info'', ''event_id'' \<mapsto> event l,
              ''message'' \<mapsto> ''msg'', ''time'' \<mapsto> ts]"
    unfolding m assms ..
  have d: "dom (attr_maps s' r) = {''k'', ''level'', ''event_id'', ''message'', ''time''}"
    unfolding m' by (simp add: insert_commute)
  show ?thesis
    by (rule exI [of _ s']) (intro conjI; fact)
qed

theorem Info_record_fields_witness:
  "\<exists>s'. Info ''2017-01-01T00:00:00Z'' (\<lambda>_. Inr ''json'')
           \<lparr>event = ''e1'', sendChan = Some 0, createTime = 0\<rparr> ''msg'' (Some 0)
           \<lparr>attr_maps = (\<lambda>_. [''k'' \<mapsto> ''v'']), next_map = 1, queues = (\<lambda>_. [])\<rparr> = Inr s' \<and>
         attr_maps s' 0 =
           [''k'' \<mapsto> ''v'', ''level'' \<mapsto> ''info'', ''event_id'' \<mapsto> ''e1'',
            ''message'' \<mapsto> ''msg'', ''time'' \<mapsto> ''2017-01-01T00:00:00Z''] \<and>
         queues s' 0 = [''json'']"
proof -
  define s0 where "s0 = \<lparr>attr_maps = (\<lambda>_::nat. [''k'' \<mapsto> ''v'']), next_map = 1, queues = (\<lambda>_::nat. [] :: string list)\<rparr>"
  define l0 where "l0 = \<lparr>event = ''e1'', sendChan = Some (0::nat), createTime = 0\<rparr>"
  have a: "attr_maps s0 0 = [''k'' \<mapsto> ''v'']"
    by (simp add: s0_def)
  from Info_record_fields [OF a, of "''2017-01-01T00:00:00Z''" "\<lambda>_. Inr ''json''" l0]
  obtain s' where
    i: "Info ''2017-01-01T00:00:00Z'' (\<lambda>_. Inr ''json'') l0 ''msg'' (Some 0) s0 = Inr s'"
    and m: "attr_maps s' 0 =
           [''k'' \<mapsto> ''v'', ''level'' \<mapsto> ''info'', ''event_id'' \<mapsto> event l0,
            ''message'' \<mapsto> ''msg'', ''time'' \<mapsto> ''2017-01-01T00:00:00Z'']"
    and p: "\<forall>log c. (Inr ''json'' :: string + string) = Inr log \<and> sendChan l0 = Some c \<and>
              length (queues s0 c) < chan_capacity \<longrightarrow>
              queues s' = (queues s0)(c := queues s0 c @ [log])"
    by (elim exE conjE)
  have c: "sendChan l0 = Some 0" "length (queues s0 0) < chan_capacity" "queues s0 0 = []"
    by (simp_all add: l0_def s0_def chan_capacity_def)
  have "queues s' = (queues s0)(0 := queues s0 0 @ [''json''])"
    using p [rule_format, of "''json''" 0] c by simp
  then have q: "queues s' 0 = [''json'']"
    using c by simp
  have e: "event l0 = ''e1''" by (simp add: l0_def)
  show ?thesis
    using i m q unfolding e unfolding s0_def l0_def by (intro exI [of _ s'] conjI)
qed

text \<open>
  C10. An emit call with a map that is not nil changes that very map: after the call the
  caller's map holds \<open>level\<close>, \<open>event_id\<close>, \<open>message\<close> and \<open>time\<close> with the values of
  the call, in place of whatever it held under these keys, and its other entries as before.
\<close>

theorem emit_mutates_caller_map:
  "(\<exists>s'. Info ts mar l message (Some r) s = Inr s' \<and>
          attr_maps s' r = (attr_maps s r)(''level'' \<mapsto> ''info'', ''event_id'' \<mapsto> event l,
                                           ''message'' \<mapsto> message, ''time'' \<mapsto> ts)) \<and>
   (\<exists>s'. Error ts mar l message (Some r) s = Inr s' \<and>
          attr_maps s' r = (attr_maps s r)(''level'' \<mapsto> ''error'', ''event_id'' \<mapsto> event l,
                                           ''message'' \<mapsto> message, ''time'' \<mapsto> ts)) \<and>
   (\<exists>s'. Debug ts mar l message (Some r) s = Inr s' \<and>
          attr_maps s' r = (attr_maps s r)(''level'' \<mapsto> ''debug'', ''event_id'' \<mapsto> event l,
                                           ''message'' \<mapsto> message, ''time'' \<mapsto> ts))"
  using emit_map [of ts mar l message r "''info''" s]
        emit_map [of ts mar l message r "''error''" s]
        emit_map [of ts mar l message r "''debug''" s]
  by (simp add: Info_def Error_def Debug_def or_make_def)

section \<open>The logger registry\<close>

lemmas run_defs = NewManager_def Start_def GetLogger_def getLBChan_def ReleaseLogger_def
  start_handle_def new_handle_def Let_def smod_int_alt_def

lemma map_of_Some_key: "map_of al k = Some v \<Longrightarrow> k \<in> set (map fst al)"
  by (metis domI dom_map_of_conv_image_fst set_map)

lemma registry_keyedD:
  "registry_keyed m \<Longrightarrow> map_of (loggers m) k = Some l \<Longrightarrow> event (heap m l) = k"
  unfolding registry_keyed_def using map_of_Some_key [of "loggers m" k l] by fastforce

lemma sample_reached:
  "NewManager \<lparr>EventLogServers = [''a'', ''b''], DiscoverAddress = []\<rparr>
     (Some \<lparr>projects = [], stopped = False\<rparr>, None) = (None, Some m0) \<Longrightarrow>
   GetLogger id 0 ''e'' m0 = Inr (0, sample)"
  by (auto simp: run_defs sample_def)

text \<open>
  C6 as the code has it. \<open>ReleaseLogger\<close> looks the registry up by the event id of the
  logger it is given and never compares the logger found with the one given: the entry for
  that event id is removed whenever there is one, whichever logger it holds, and nothing
  else changes; with no entry the call changes nothing.
\<close>

theorem ReleaseLogger_by_event_id:
  assumes "registry_keyed m"
  shows "\<exists>m'. ReleaseLogger (Some l) m = Inr m' \<and>
           map_of (loggers m') = (map_of (loggers m))(event (heap m l) := None) \<and>
           m'\<lparr>loggers := loggers m\<rparr> = m \<and>
           (map_of (loggers m) (event (heap m l)) = None \<longrightarrow> m' = m) \<and>
           (\<forall>l'. map_of (loggers m) (event (heap m l)) = Some l' \<longrightarrow>
                 map_of (loggers m') (event (heap m l)) = None)"
proof (cases "map_of (loggers m) (event (heap m l))")
  case None
  then have r: "ReleaseLogger (Some l) m = Inr m"
    by (simp add: ReleaseLogger_def)
  have "map_of (loggers m) = (map_of (loggers m))(event (heap m l) := None)"
    using None by (simp add: fun_upd_idem)
  with r None show ?thesis by simp
next
  case (Some l')
  then have k: "event (heap m l') = event (heap m l)"
    using assms registry_keyedD by blast
  have r: "ReleaseLogger (Some l) m =
             Inr (m\<lparr>loggers := AList.delete (event (heap m l)) (loggers m)\<rparr>)"
    using Some k by (simp add: ReleaseLogger_def)
  show ?thesis
    unfolding r by (simp add: delete_conv' Some)
qed

theorem ReleaseLogger_by_event_id_witness:
  "registry_keyed sample \<and>
   (\<exists>m'. ReleaseLogger (Some 0) sample = Inr m' \<and> map_of (loggers m') ''e'' = None)"
proof -
  have rk: "registry_keyed sample"
    by (simp add: registry_keyed_def sample_def)
  have e: "event (heap sample 0) = ''e''" "map_of (loggers sample) ''e'' = Some 0"
    by (simp_all add: sample_def)
  from ReleaseLogger_by_event_id [OF rk, of 0]
  obtain m' where r: "ReleaseLogger (Some 0) sample = Inr m'"
    and d: "\<forall>l'. map_of (loggers sample) (event (heap sample 0)) = Some l' \<longrightarrow>
                 map_of (loggers m') (event (heap sample 0)) = None"
    by (elim exE conjE)
  have "map_of (loggers m') ''e'' = None"
    using d e by simp
  with rk r show ?thesis by (intro conjI exI [of _ m'])
qed

text \<open>
  C6 as stated fails: a logger for \<open>e\<close> is taken and released, a second logger for \<open>e\<close>
  is taken, and the first, stale logger is released again. The second logger is the one on
  record, yet its entry is removed.
\<close>

theorem ReleaseLogger_stale_counterexample:
  "(case NewManager \<lparr>EventLogServers = [''a''], DiscoverAddress = []\<rparr>
           (Some \<lparr>projects = [], stopped = False\<rparr>, None) of
      (e, None) \<Rightarrow> False
    | (e, Some m0) \<Rightarrow>
        (case GetLogger id 0 ''e'' m0 of
           Inl p \<Rightarrow> False
         | Inr (l0, m1) \<Rightarrow>
             (case ReleaseLogger (Some l0) m1 of
                Inl p \<Rightarrow> False
              | Inr m2 \<Rightarrow>
                  (case GetLogger id 1 ''e'' m2 of
                     Inl p \<Rightarrow> False
                   | Inr (l1, m3) \<Rightarrow>
                       l1 \<noteq> l0 \<and> event (heap m3 l0) = ''e'' \<and>
                       map_of (loggers m3) ''e'' = Some l1 \<and>
                       (case ReleaseLogger (Some l0) m3 of
                          Inl p \<Rightarrow> False
                        | Inr m4 \<Rightarrow> map_of (loggers m4) ''e'' = None \<and> m4 \<noteq> m3)))))"
  by (simp add: NewManager_def Start_def GetLogger_def getLBChan_def ReleaseLogger_def
      start_handle_def new_handle_def Let_def smod_int_alt_def)

section \<open>Load balancing\<close>

subsection \<open>The int32 cursor\<close>

lemma sint_of_nat32: "n < 2^31 \<Longrightarrow> sint (word_of_nat n :: 32 word) = int n"
  by (simp add: signed_of_nat signed_take_bit_int_eq_self_iff)

lemma of_nat32_nz: "0 < n \<Longrightarrow> n < 2^31 \<Longrightarrow> (word_of_nat n :: 32 word) \<noteq> 0"
  using sint_of_nat32[of n] by auto

lemma sint_succ32: "sint (w :: 32 word) + 1 < 2^31 \<Longrightarrow> sint (w + 1) = sint w + 1"
  apply (simp add: sint_word_ariths signed_take_bit_int_eq_self_iff)
  using sint_ge[of w] apply simp
  done

lemma sint_add_nat32:
  "0 \<le> sint (w :: 32 word) \<Longrightarrow> sint w + int j < 2^31 \<Longrightarrow> sint (w + of_nat j) = sint w + int j"
proof (induction j)
  case 0
  then show ?case by simp
next
  case (Suc j)
  then have ih: "sint (w + of_nat j) = sint w + int j" by simp
  have "sint (w + of_nat j + 1) = sint (w + of_nat j) + 1"
    by (rule sint_succ32) (use Suc.prems ih in simp)
  then show ?case using ih by (simp add: ac_simps)
qed

lemma smod_nonneg: "0 \<le> (a::int) \<Longrightarrow> 0 < b \<Longrightarrow> a smod b = a mod b"
  by (simp add: smod_mod_positive)

lemma loop_step:
  assumes "0 \<le> sint (qos m)" "sint (qos m) + 1 < 2^31"
    "0 < length (eventServer m)" "length (eventServer m) < 2^31"
  shows "getLBChan_loop (Suc i) m =
     (if abnormalServer m (examined m 0) \<noteq> None then getLBChan_loop i (m\<lparr>qos := qos m + 1\<rparr>)
      else (case map_of (handles m) (examined m 0) of
              Some h \<Rightarrow> Inr (Some (cacheChan h), m\<lparr>qos := qos m + 1\<rparr>)
            | None \<Rightarrow> Inr (Some (next_chan m), start_handle (examined m 0) (m\<lparr>qos := qos m + 1\<rparr>))))"
proof -
  let ?n = "length (eventServer m)"
  have d: "(word_of_nat ?n :: 32 word) \<noteq> 0" "sint (word_of_nat ?n :: 32 word) = int ?n"
    using assms of_nat32_nz sint_of_nat32 by auto
  have s: "sint (qos m) smod int ?n = sint (qos m) mod int ?n"
    using assms by (simp add: smod_nonneg)
  have b0: "0 \<le> sint (qos m) mod int ?n" "sint (qos m) mod int ?n < int ?n"
    using assms by simp_all
  then have b: "0 \<le> sint (qos m) mod int ?n" "nat (sint (qos m) mod int ?n) < ?n"
    by linarith+
  show ?thesis
    using d s b by (simp add: Let_def examined_def new_handle_def split: option.split)
qed

lemma examined_shift:
  assumes "0 \<le> sint (qos m)" "sint (qos m) + int j < 2^31"
  shows "examined (m\<lparr>qos := qos m + of_nat j\<rparr>) k = examined m (j + k)"
  using sint_add_nat32 [OF assms] by (simp add: examined_def add.assoc)

lemma loop_skip:
  "no_wrap m j \<Longrightarrow> 0 < length (eventServer m) \<Longrightarrow> j \<le> i \<Longrightarrow>
   \<forall>k<j. abnormalServer m (examined m k) \<noteq> None \<Longrightarrow>
   getLBChan_loop i m = getLBChan_loop (i - j) (m\<lparr>qos := qos m + of_nat j\<rparr>)"
proof (induction j arbitrary: m i)
  case 0
  then show ?case by simp
next
  case (Suc j)
  obtain i' where i: "i = Suc i'" using Suc.prems(3) by (cases i) auto
  let ?m1 = "m\<lparr>qos := qos m + 1\<rparr>"
  have nw: "0 \<le> sint (qos m)" "sint (qos m) + 1 < 2^31" "length (eventServer m) < 2^31"
    "sint (qos m) + int (Suc j) < 2^31"
    using Suc.prems(1) by (simp_all add: no_wrap_def)
  have s1: "sint (qos ?m1) = sint (qos m) + 1"
    using sint_succ32 nw by simp
  have a0: "abnormalServer m (examined m 0) \<noteq> None"
    using Suc.prems(4) by blast
  have st: "getLBChan_loop i m = getLBChan_loop i' ?m1"
    unfolding i using loop_step [OF nw(1) nw(2) Suc.prems(2) nw(3)] a0 by simp
  have sh: "\<And>k. examined ?m1 k = examined m (Suc k)"
    using examined_shift [of m 1] nw by simp
  have nw1: "no_wrap ?m1 j"
    using nw s1 by (simp add: no_wrap_def)
  have ab: "\<forall>k<j. abnormalServer ?m1 (examined ?m1 k) \<noteq> None"
    using Suc.prems(4) sh by auto
  have "getLBChan_loop i' ?m1 = getLBChan_loop (i' - j) (?m1\<lparr>qos := qos ?m1 + of_nat j\<rparr>)"
    by (rule Suc.IH [OF nw1 _ _ ab]) (use Suc.prems i in simp_all)
  then show ?case
    unfolding st using i by (simp add: ac_simps)
qed

lemma loop_hit:
  assumes "no_wrap m (Suc j)" "j < i" "0 < length (eventServer m)"
    "\<forall>k<j. abnormalServer m (examined m k) \<noteq> None"
    "abnormalServer m (examined m j) = None"
  shows "getLBChan_loop i m =
     (case map_of (handles m) (examined m j) of
        Some h \<Rightarrow> Inr (Some (cacheChan h), m\<lparr>qos := qos m + of_nat (Suc j)\<rparr>)
      | None \<Rightarrow> Inr (Some (next_chan m),
                        start_handle (examined m j) (m\<lparr>qos := qos m + of_nat (Suc j)\<rparr>)))"
proof -
  let ?mj = "m\<lparr>qos := qos m + of_nat j\<rparr>"
  have nw: "0 \<le> sint (qos m)" "sint (qos m) + int j < 2^31" "length (eventServer m) < 2^31"
    "sint (qos m) + int j + 1 < 2^31"
    using assms(1) by (simp_all add: no_wrap_def)
  have nwj: "no_wrap m j"
    using nw by (simp add: no_wrap_def)
  have sk: "getLBChan_loop i m = getLBChan_loop (i - j) ?mj"
    using loop_skip [OF nwj assms(3) _ assms(4), of i] assms(2) by simp
  obtain i' where i': "i - j = Suc i'"
    using assms(2) by (cases "i - j") auto
  have sj: "sint (qos ?mj) = sint (qos m) + int j"
    using sint_add_nat32 nw by simp
  have e0: "examined ?mj 0 = examined m j"
    using examined_shift [OF nw(1) nw(2), of 0] by simp
  have st: "getLBChan_loop (Suc i') ?mj =
     (if abnormalServer ?mj (examined ?mj 0) \<noteq> None then getLBChan_loop i' (?mj\<lparr>qos := qos ?mj + 1\<rparr>)
      else (case map_of (handles ?mj) (examined ?mj 0) of
              Some h \<Rightarrow> Inr (Some (cacheChan h), ?mj\<lparr>qos := qos ?mj + 1\<rparr>)
            | None \<Rightarrow> Inr (Some (next_chan ?mj), start_handle (examined ?mj 0) (?mj\<lparr>qos := qos ?mj + 1\<rparr>))))"
    by (rule loop_step) (use sj nw assms(3) in simp_all)
  show ?thesis
    unfolding sk i' st e0 using assms(5) by (simp add: ac_simps split: option.split)
qed

lemma loop_miss:
  assumes "no_wrap m i" "\<forall>k<i. abnormalServer m (examined m k) \<noteq> None"
    "0 < length (eventServer m) \<or> i = 0"
  shows "getLBChan_loop i m = Inr (None, m\<lparr>qos := qos m + of_nat i\<rparr>)"
proof (cases "i = 0")
  case True
  then show ?thesis by simp
next
  case False
  then have "0 < length (eventServer m)" using assms(3) by simp
  from loop_skip [OF assms(1) this _ assms(2), of i]
  show ?thesis by simp
qed


lemma handles_start_handle:
  "map_of (handles (start_handle s m)) = (map_of (handles m))(s \<mapsto> new_handle s m)"
  by (simp add: start_handle_def update_conv')

lemma getLBChan_loop_frame:
  "getLBChan_loop i m = Inr (c, m') \<Longrightarrow>
   loggers m' = loggers m \<and> heap m' = heap m \<and> eventServer m' = eventServer m \<and>
   abnormalServer m' = abnormalServer m \<and> next_logger m' = next_logger m \<and>
   (\<forall>k h. map_of (handles m) k = Some h \<longrightarrow> map_of (handles m') k = Some h)"
proof (induction i arbitrary: m)
  case 0
  then show ?case by simp
next
  case (Suc i)
  let ?m1 = "m\<lparr>qos := qos m + 1\<rparr>"
  let ?s = "eventServer m ! nat (sint (qos m) smod sint (word_of_nat (length (eventServer m)) :: 32 word))"
  from Suc.prems have
    c: "(abnormalServer m ?s \<noteq> None \<and> getLBChan_loop i ?m1 = Inr (c, m')) \<or>
        (\<exists>h. map_of (handles m) ?s = Some h \<and> m' = ?m1) \<or>
        (map_of (handles m) ?s = None \<and> m' = start_handle ?s ?m1)"
    by (simp add: Let_def split: if_splits option.splits)
  then show ?case
  proof (elim disjE conjE exE)
    assume "getLBChan_loop i ?m1 = Inr (c, m')"
    from Suc.IH [OF this] show ?thesis by simp
  next
    fix h assume "m' = ?m1"
    then show ?thesis by simp
  next
    assume n: "map_of (handles m) ?s = None" and m': "m' = start_handle ?s ?m1"
    have "\<forall>k h. map_of (handles m) k = Some h \<longrightarrow> map_of (handles m') k = Some h"
      unfolding m' handles_start_handle using n by auto
    then show ?thesis unfolding m' by (simp add: start_handle_def)
  qed
qed

lemma getLBChan_loop_Some:
  "getLBChan_loop i m = Inr (Some c, m') \<Longrightarrow>
   \<exists>s h. s \<in> set (eventServer m) \<and> abnormalServer m s = None \<and>
         map_of (handles m') s = Some h \<and> cacheChan h = c"
proof (induction i arbitrary: m)
  case 0
  then show ?case by simp
next
  case (Suc i)
  let ?m1 = "m\<lparr>qos := qos m + 1\<rparr>"
  let ?s = "eventServer m ! nat (sint (qos m) smod sint (word_of_nat (length (eventServer m)) :: 32 word))"
  from Suc.prems have
    c: "(abnormalServer m ?s \<noteq> None \<and> getLBChan_loop i ?m1 = Inr (Some c, m')) \<or>
        (nat (sint (qos m) smod sint (word_of_nat (length (eventServer m)) :: 32 word)) < length (eventServer m) \<and>
         abnormalServer m ?s = None \<and>
         ((\<exists>h. map_of (handles m) ?s = Some h \<and> m' = ?m1 \<and> c = cacheChan h) \<or>
          (map_of (handles m) ?s = None \<and> m' = start_handle ?s ?m1 \<and> c = cacheChan (new_handle ?s ?m1))))"
    by (simp add: Let_def split: if_splits option.splits)
  then show ?case
  proof (elim disjE conjE exE)
    assume "getLBChan_loop i ?m1 = Inr (Some c, m')"
    from Suc.IH [OF this] show ?thesis by simp
  next
    fix h assume "nat (sint (qos m) smod sint (word_of_nat (length (eventServer m)) :: 32 word)) < length (eventServer m)"
      "abnormalServer m ?s = None" "map_of (handles m) ?s = Some h" "m' = ?m1" "c = cacheChan h"
    then show ?thesis by (intro exI [of _ ?s] exI [of _ h]) simp
  next
    assume "nat (sint (qos m) smod sint (word_of_nat (length (eventServer m)) :: 32 word)) < length (eventServer m)"
      "abnormalServer m ?s = None" "m' = start_handle ?s ?m1" "c = cacheChan (new_handle ?s ?m1)"
    then show ?thesis
      by (intro exI [of _ ?s] exI [of _ "new_handle ?s ?m1"]) (simp add: handles_start_handle)
  qed
qed


lemma getLBChan_frame:
  assumes "getLBChan ord m = Inr (c, m')"
  shows "loggers m' = loggers m \<and> heap m' = heap m \<and> eventServer m' = eventServer m \<and>
   abnormalServer m' = abnormalServer m \<and> next_logger m' = next_logger m \<and>
   (\<forall>k h. map_of (handles m) k = Some h \<longrightarrow> map_of (handles m') k = Some h)"
proof -
  obtain c0 where "getLBChan_loop (length (eventServer m)) m = Inr (c0, m')"
    using assms by (auto simp: getLBChan_def split: sum.splits option.splits list.splits)
  then show ?thesis by (rule getLBChan_loop_frame)
qed

lemma getLBChan_registered:
  assumes "getLBChan ord m = Inr (Some c, m')"
  shows "\<exists>s h. map_of (handles m') s = Some h \<and> cacheChan h = c"
proof -
  have "getLBChan_loop (length (eventServer m)) m = Inr (Some c, m') \<or>
        (\<exists>k. map_option cacheChan (map_of (handles m') k) = Some c)"
    using assms
    by (simp add: getLBChan_def split: sum.splits option.splits list.splits prod.splits) blast+
  then show ?thesis
  proof
    assume "getLBChan_loop (length (eventServer m)) m = Inr (Some c, m')"
    from getLBChan_loop_Some [OF this] show ?thesis by blast
  next
    assume "\<exists>k. map_option cacheChan (map_of (handles m') k) = Some c"
    then show ?thesis by auto
  qed
qed

lemma getLBChan_hit:
  assumes "no_wrap m (Suc j)" "j < length (eventServer m)"
    "\<forall>k<j. abnormalServer m (examined m k) \<noteq> None"
    "abnormalServer m (examined m j) = None"
  shows "\<exists>c m'. getLBChan ord m = Inr (Some c, m') \<and> qos m' = qos m + of_nat (Suc j) \<and>
           map_option cacheChan (map_of (handles m') (examined m j)) = Some c"
proof -
  have n: "0 < length (eventServer m)" using assms(2) by auto
  note h = loop_hit [OF assms(1) assms(2) n assms(3) assms(4)]
  show ?thesis
  proof (cases "map_of (handles m) (examined m j)")
    case None
    then have "getLBChan ord m = Inr (Some (next_chan m),
                 start_handle (examined m j) (m\<lparr>qos := qos m + of_nat (Suc j)\<rparr>))"
      using h by (simp add: getLBChan_def)
    then show ?thesis
      by (intro exI conjI, assumption) (simp_all add: start_handle_def update_conv' new_handle_def)
  next
    case (Some hd)
    then have "getLBChan ord m = Inr (Some (cacheChan hd), m\<lparr>qos := qos m + of_nat (Suc j)\<rparr>)"
      using h by (simp add: getLBChan_def)
    then show ?thesis
      by (intro exI conjI, assumption) (simp_all add: Some)
  qed
qed

lemma getLBChan_miss:
  assumes "no_wrap m (length (eventServer m))"
    "\<forall>k<length (eventServer m). abnormalServer m (examined m k) \<noteq> None"
  shows "\<exists>c m'. getLBChan ord m = Inr (c, m') \<and> qos m' = qos m + of_nat (length (eventServer m))"
proof -
  have "getLBChan_loop (length (eventServer m)) m =
          Inr (None, m\<lparr>qos := qos m + of_nat (length (eventServer m))\<rparr>)"
    by (rule loop_miss [OF assms]) auto
  then show ?thesis
    by (cases "ord (map fst (handles m))") (simp_all add: getLBChan_def)
qed

lemma two_servers_step:
  assumes "eventServer m = [a, b]" "abnormalServer m a = None" "abnormalServer m b = None"
    "qos m = of_nat k" "k < 4"
  shows "\<exists>c m'. getLBChan ord m = Inr (Some c, m') \<and> qos m' = of_nat (Suc k) \<and>
           map_option cacheChan (map_of (handles m') ([a, b] ! (k mod 2))) = Some c \<and>
           eventServer m' = [a, b] \<and> abnormalServer m' = abnormalServer m \<and>
           (\<forall>s h. map_of (handles m) s = Some h \<longrightarrow> map_of (handles m') s = Some h)"
proof -
  have sq: "sint (qos m) = int k"
    using assms(4,5) sint_of_nat32 [of k] by simp
  have nw: "no_wrap m (Suc 0)"
    using sq assms(1,5) by (simp add: no_wrap_def)
  have "nat (int k mod 2) = k mod 2"
    by (simp add: nat_mod_as_int)
  then have ex: "examined m 0 = [a, b] ! (k mod 2)"
    using sq assms(1) by (simp add: examined_def)
  have "k mod 2 = 0 \<or> k mod 2 = 1" by auto
  then have ab: "abnormalServer m (examined m 0) = None"
    unfolding ex using assms(2,3) by auto
  from getLBChan_hit [OF nw _ _ ab, of ord]
  obtain c m' where g: "getLBChan ord m = Inr (Some c, m')"
    and q: "qos m' = qos m + of_nat (Suc 0)"
    and h: "map_option cacheChan (map_of (handles m') (examined m 0)) = Some c"
    using assms(1) by auto
  note f = getLBChan_frame [OF g]
  have q': "qos m' = of_nat (Suc k)"
    using q assms(4) by simp
  show ?thesis
    using g q' h f assms(1) unfolding ex by (intro exI [of _ c] exI [of _ m']) simp
qed

lemma round_robin_two:
  assumes "eventServer m = [a, b]" "qos m = 0" "abnormalServer m a = None"
    "abnormalServer m b = None"
  shows "\<exists>qa qb m'. selections ord 4 m = Inr ([Some qa, Some qb, Some qa, Some qb], m') \<and>
           map_option cacheChan (map_of (handles m') a) = Some qa \<and>
           map_option cacheChan (map_of (handles m') b) = Some qb \<and> qos m' = 4"
proof -
  from two_servers_step [OF assms(1,3,4), of 0 ord] assms(2)
  obtain c1 m1 where g1: "getLBChan ord m = Inr (Some c1, m1)" and q1: "qos m1 = of_nat 1"
    and h1: "map_option cacheChan (map_of (handles m1) a) = Some c1"
    and e1: "eventServer m1 = [a, b]" and a1: "abnormalServer m1 = abnormalServer m"
    by auto
  from two_servers_step [OF e1 _ _ q1, of ord] a1 assms(3,4)
  obtain c2 m2 where g2: "getLBChan ord m1 = Inr (Some c2, m2)" and q2: "qos m2 = of_nat 2"
    and h2: "map_option cacheChan (map_of (handles m2) b) = Some c2"
    and e2: "eventServer m2 = [a, b]" and a2: "abnormalServer m2 = abnormalServer m"
    and f2: "\<forall>s h. map_of (handles m1) s = Some h \<longrightarrow> map_of (handles m2) s = Some h"
    by auto
  have h2a: "map_option cacheChan (map_of (handles m2) a) = Some c1"
    using h1 f2 by auto
  from two_servers_step [OF e2 _ _ q2, of ord] a2 assms(3,4)
  obtain c3 m3 where g3: "getLBChan ord m2 = Inr (Some c3, m3)" and q3: "qos m3 = of_nat 3"
    and h3: "map_option cacheChan (map_of (handles m3) a) = Some c3"
    and e3: "eventServer m3 = [a, b]" and a3: "abnormalServer m3 = abnormalServer m"
    and f3: "\<forall>s h. map_of (handles m2) s = Some h \<longrightarrow> map_of (handles m3) s = Some h"
    by auto
  have c3: "c3 = c1" using h2a h3 f3 by auto
  have h3b: "map_option cacheChan (map_of (handles m3) b) = Some c2"
    using h2 f3 by auto
  from two_servers_step [OF e3 _ _ q3, of ord] a3 assms(3,4)
  obtain c4 m4 where g4: "getLBChan ord m3 = Inr (Some c4, m4)" and q4: "qos m4 = of_nat 4"
    and h4: "map_option cacheChan (map_of (handles m4) b) = Some c4"
    and f4: "\<forall>s h. map_of (handles m3) s = Some h \<longrightarrow> map_of (handles m4) s = Some h"
    by auto
  have c4: "c4 = c2" using h3b h4 f4 by auto
  have h4a: "map_option cacheChan (map_of (handles m4) a) = Some c1"
    using h3 c3 f4 by auto
  have s: "selections ord 4 m = Inr ([Some c1, Some c2, Some c1, Some c2], m4)"
    using g1 g2 g3 g4 c3 c4 by (simp add: eval_nat_numeral)
  show ?thesis
    using s h4a h4 q4 unfolding c4 by (intro exI [of _ c1] exI [of _ c2] exI [of _ m4]) simp
qed

text \<open>
  C4 as the code has it. While the int32 cursor does not wrap around, a selection looks at
  the servers at the positions cursor, cursor + 1, ... modulo the length of the server
  list, and the cursor moves by one for every server looked at, not by one for every call:
  when the first \<open>j\<close> servers looked at are abnormal and the next one is not, the call
  returns the queue of the handle of that server and the cursor has moved by \<open>j + 1\<close>;
  when all servers are abnormal it has moved by the length of the list. With the servers
  \<open>[a, b]\<close>, none abnormal, and the cursor 0, four selections return the queues of
  \<open>a\<close>, \<open>b\<close>, \<open>a\<close>, \<open>b\<close> in this order.
\<close>

theorem getLBChan_round_robin:
  "(no_wrap m (Suc j) \<and> j < length (eventServer m) \<and>
    (\<forall>k<j. abnormalServer m (examined m k) \<noteq> None) \<and>
    abnormalServer m (examined m j) = None \<longrightarrow>
    (\<exists>c m'. getLBChan ord m = Inr (Some c, m') \<and> qos m' = qos m + of_nat (Suc j) \<and>
            map_option cacheChan (map_of (handles m') (examined m j)) = Some c)) \<and>
   (no_wrap m2 (length (eventServer m2)) \<and>
    (\<forall>k<length (eventServer m2). abnormalServer m2 (examined m2 k) \<noteq> None) \<longrightarrow>
    (\<exists>c m'. getLBChan ord m2 = Inr (c, m') \<and>
            qos m' = qos m2 + of_nat (length (eventServer m2)))) \<and>
   (eventServer m3 = [a, b] \<and> qos m3 = 0 \<and> abnormalServer m3 a = None \<and>
    abnormalServer m3 b = None \<longrightarrow>
    (\<exists>qa qb m'. selections ord 4 m3 = Inr ([Some qa, Some qb, Some qa, Some qb], m') \<and>
           map_option cacheChan (map_of (handles m') a) = Some qa \<and>
           map_option cacheChan (map_of (handles m') b) = Some qb \<and> qos m' = 4))"
proof (intro conjI impI)
  assume h: "no_wrap m (Suc j) \<and> j < length (eventServer m) \<and>
    (\<forall>k<j. abnormalServer m (examined m k) \<noteq> None) \<and>
    abnormalServer m (examined m j) = None"
  show "\<exists>c m'. getLBChan ord m = Inr (Some c, m') \<and> qos m' = qos m + of_nat (Suc j) \<and>
            map_option cacheChan (map_of (handles m') (examined m j)) = Some c"
    by (rule getLBChan_hit) (use h in blast)+
next
  assume h: "no_wrap m2 (length (eventServer m2)) \<and>
    (\<forall>k<length (eventServer m2). abnormalServer m2 (examined m2 k) \<noteq> None)"
  show "\<exists>c m'. getLBChan ord m2 = Inr (c, m') \<and>
            qos m' = qos m2 + of_nat (length (eventServer m2))"
    by (rule getLBChan_miss) (use h in blast)+
next
  assume h: "eventServer m3 = [a, b] \<and> qos m3 = 0 \<and> abnormalServer m3 a = None \<and>
    abnormalServer m3 b = None"
  show "\<exists>qa qb m'. selections ord 4 m3 = Inr ([Some qa, Some qb, Some qa, Some qb], m') \<and>
           map_option cacheChan (map_of (handles m') a) = Some qa \<and>
           map_option cacheChan (map_of (handles m') b) = Some qb \<and> qos m' = 4"
    by (rule round_robin_two) (use h in blast)+
qed

theorem getLBChan_round_robin_witness:
  "(no_wrap (sample\<lparr>abnormalServer := [''b'' \<mapsto> ''b'']\<rparr>) 2 \<and>
    abnormalServer (sample\<lparr>abnormalServer := [''b'' \<mapsto> ''b'']\<rparr>)
      (examined (sample\<lparr>abnormalServer := [''b'' \<mapsto> ''b'']\<rparr>) 0) \<noteq> None \<and>
    examined (sample\<lparr>abnormalServer := [''b'' \<mapsto> ''b'']\<rparr>) 1 = ''a'' \<and>
    (\<exists>c m'. getLBChan id (sample\<lparr>abnormalServer := [''b'' \<mapsto> ''b'']\<rparr>) = Inr (Some c, m') \<and>
            qos m' = 3 \<and> map_option cacheChan (map_of (handles m') ''a'') = Some c)) \<and>
   (no_wrap (sample\<lparr>abnormalServer := [''a'' \<mapsto> ''a'', ''b'' \<mapsto> ''b'']\<rparr>) 2 \<and>
    (\<exists>c m'. getLBChan id (sample\<lparr>abnormalServer := [''a'' \<mapsto> ''a'', ''b'' \<mapsto> ''b'']\<rparr>) = Inr (c, m') \<and>
            qos m' = 3)) \<and>
   (\<exists>qa qb m'. selections id 4 (sample\<lparr>qos := 0\<rparr>) = Inr ([Some qa, Some qb, Some qa, Some qb], m') \<and>
           map_option cacheChan (map_of (handles m') ''a'') = Some qa \<and>
           map_option cacheChan (map_of (handles m') ''b'') = Some qb \<and> qos m' = 4)"
proof -
  let ?m = "sample\<lparr>abnormalServer := [''b'' \<mapsto> ''b'']\<rparr>"
  let ?m2 = "sample\<lparr>abnormalServer := [''a'' \<mapsto> ''a'', ''b'' \<mapsto> ''b'']\<rparr>"
  let ?m3 = "sample\<lparr>qos := 0\<rparr>"
  note t = getLBChan_round_robin [of ?m 1 id ?m2 ?m3 "''a''" "''b''"]
  have e: "examined ?m 0 = ''b''" "examined ?m 1 = ''a''"
          "examined ?m2 0 = ''b''" "examined ?m2 1 = ''a''"
    by (simp_all add: examined_def sample_def)
  have nw: "no_wrap ?m 2" "no_wrap ?m2 2"
    by (simp_all add: no_wrap_def sample_def)
  have l: "length (eventServer ?m) = 2" "length (eventServer ?m2) = 2" "qos ?m = 1" "qos ?m2 = 1"
    by (simp_all add: sample_def)
  have h1: "no_wrap ?m (Suc 1) \<and> 1 < length (eventServer ?m) \<and>
    (\<forall>k<1. abnormalServer ?m (examined ?m k) \<noteq> None) \<and>
    abnormalServer ?m (examined ?m 1) = None"
    using nw l e by (simp add: numeral_2_eq_2)
  have h2: "no_wrap ?m2 (length (eventServer ?m2)) \<and>
    (\<forall>k<length (eventServer ?m2). abnormalServer ?m2 (examined ?m2 k) \<noteq> None)"
    using nw l e by (simp add: numeral_2_eq_2 less_Suc_eq)
  have h3: "eventServer ?m3 = [''a'', ''b''] \<and> qos ?m3 = 0 \<and> abnormalServer ?m3 ''a'' = None \<and>
    abnormalServer ?m3 ''b'' = None"
    by (simp add: sample_def)
  have c1: "\<exists>c m'. getLBChan id ?m = Inr (Some c, m') \<and> qos m' = 3 \<and>
            map_option cacheChan (map_of (handles m') ''a'') = Some c"
    using t [THEN conjunct1, rule_format, OF h1] l e by simp
  have c2: "\<exists>c m'. getLBChan id ?m2 = Inr (c, m') \<and> qos m' = 3"
    using t [THEN conjunct2, THEN conjunct1, rule_format, OF h2] l by simp
  note c3 = t [THEN conjunct2, THEN conjunct2, rule_format, OF h3]
  have a0: "abnormalServer ?m (examined ?m 0) \<noteq> None"
    using e by simp
  show ?thesis
    using nw a0 e(2) c1 c2 c3 by (intro conjI)
qed

text \<open>
  C4 as stated fails: with the servers \<open>[a, b]\<close>, the cursor 0 and \<open>a\<close> abnormal, one
  selection returns the queue of \<open>b\<close> and leaves the cursor at 2, not at 1.
\<close>

theorem getLBChan_cursor_counterexample:
  "(case getLBChan id (sample\<lparr>qos := 0, abnormalServer := [''a'' \<mapsto> ''a'']\<rparr>) of
      Inl p \<Rightarrow> False
    | Inr (c, m') \<Rightarrow> c = Some 2 \<and> qos m' = 2 \<and> qos m' \<noteq> 0 + 1)"
  by (simp add: run_defs sample_def)

section \<open>Shutdown\<close>

text \<open>
  C8. A manager made by \<open>NewManager\<close> when the discovery client could not be made
  (\<open>GetDiscover\<close> gave nil and an error) and a server list is configured has a nil \<open>dis\<close>,
  and \<open>Close\<close> on it ends in a nil dereference: it does not return.
\<close>

theorem Close_degraded_panics:
  "(case NewManager \<lparr>EventLogServers = [''a''], DiscoverAddress = []\<rparr> (None, Some ''no etcd'') of
      (e, Some m) \<Rightarrow> e = None \<and> dis m = None \<and> Close m = Inl NilDereference
    | (e, None) \<Rightarrow> False)"
  by (simp add: NewManager_def Start_def Close_def start_handle_def new_handle_def)

end
